theory Spec2Isabelle
  imports Main
begin

section \<open>Data model\<close>

text \<open>
  The source is C++. Its \<^verbatim>\<open>int\<close> values are pitches, chord degrees and vector indices;
  they are modelled by HOL's \<open>int\<close>. A \<^verbatim>\<open>std::vector<int>\<close> and a Stanford
  \<^verbatim>\<open>Vector<int>\<close> are \<open>int list\<close>. The process-wide flag \<^verbatim>\<open>majorKey\<close> is an explicit
  parameter of every function that reads it.

  The model computes with unbounded integers: the arithmetic of the source is on pitches
  of a keyboard of 44 keys and on indices of vectors of a few dozen elements, far from the
  limits of a C++ \<^verbatim>\<open>int\<close>.

  Two things can go wrong in the source, and both are values of the model:
  \<^item> \<open>OutOfBounds\<close>: \<^verbatim>\<open>operator[]\<close> or \<^verbatim>\<open>back()\<close> of a \<^verbatim>\<open>std::vector\<close> outside its
    elements. The source does not check; in C++ the read is undefined behaviour.
  \<^item> \<open>VectorIndexError\<close>: an index outside a Stanford \<^verbatim>\<open>Vector\<close>, which checks and
    raises.
\<close>

datatype error = OutOfBounds | VectorIndexError

definition bindE :: "error + 'a \<Rightarrow> ('a \<Rightarrow> error + 'b) \<Rightarrow> error + 'b" where
  "bindE m f = (case m of Inl e \<Rightarrow> Inl e | Inr x \<Rightarrow> f x)"

text \<open>The short-circuit operators \<^verbatim>\<open>||\<close> and \<^verbatim>\<open>&&\<close> over operands that may fail.\<close>

definition orE :: "error + bool \<Rightarrow> error + bool \<Rightarrow> error + bool" where
  "orE a b = (case a of Inl e \<Rightarrow> Inl e | Inr x \<Rightarrow> if x then Inr True else b)"

definition andE :: "error + bool \<Rightarrow> error + bool \<Rightarrow> error + bool" where
  "andE a b = (case a of Inl e \<Rightarrow> Inl e | Inr x \<Rightarrow> if x then b else Inr False)"

text \<open>\<^verbatim>\<open>v[i]\<close> of a \<^verbatim>\<open>std::vector\<close>.\<close>

definition at :: "'a list \<Rightarrow> int \<Rightarrow> error + 'a" where
  "at v i = (if 0 \<le> i \<and> i < int (length v) then Inr (v ! nat i) else Inl OutOfBounds)"

text \<open>\<^verbatim>\<open>v.back()\<close> of a \<^verbatim>\<open>std::vector\<close>.\<close>

definition vec_back :: "'a list \<Rightarrow> error + 'a" where
  "vec_back v = (if v = [] then Inl OutOfBounds else Inr (last v))"

text \<open>\<^verbatim>\<open>v[i]\<close> and \<^verbatim>\<open>v.remove(i)\<close> of a Stanford \<^verbatim>\<open>Vector\<close>: the element at index
  \<open>i\<close> is read, or removed with the later elements moving one place down.\<close>

definition vector_get :: "'a list \<Rightarrow> int \<Rightarrow> error + 'a" where
  "vector_get v i =
     (if 0 \<le> i \<and> i < int (length v) then Inr (v ! nat i) else Inl VectorIndexError)"

definition vector_remove :: "'a list \<Rightarrow> int \<Rightarrow> error + 'a list" where
  "vector_remove v i =
     (if 0 \<le> i \<and> i < int (length v) then Inr (take (nat i) v @ drop (Suc (nat i)) v)
      else Inl VectorIndexError)"

text \<open>C++ integer division truncates towards zero and \<^verbatim>\<open>%\<close> takes the sign of the
  dividend.\<close>

definition c_div :: "int \<Rightarrow> int \<Rightarrow> int" where
  "c_div a b = sgn a * sgn b * (\<bar>a\<bar> div \<bar>b\<bar>)"

definition c_rem :: "int \<Rightarrow> int \<Rightarrow> int" where
  "c_rem a b = sgn a * (\<bar>a\<bar> mod \<bar>b\<bar>)"

subsection \<open>Constants (chorale-constants.h)\<close>

definition BASS_MIN :: int where "BASS_MIN = 0"
definition BASS_MAX :: int where "BASS_MAX = 24"
definition TENOR_MIN :: int where "TENOR_MIN = 12"
definition TENOR_MAX :: int where "TENOR_MAX = 31"
definition ALTO_MIN :: int where "ALTO_MIN = 19"
definition ALTO_MAX :: int where "ALTO_MAX = 36"
definition SOPRANO_MIN :: int where "SOPRANO_MIN = 24"
definition SOPRANO_MAX :: int where "SOPRANO_MAX = 43"

section \<open>Scale model\<close>

text \<open>The loop \<^verbatim>\<open>while (distance < 0) distance += 12;\<close> of \<^verbatim>\<open>notInScale\<close> and
  \<^verbatim>\<open>distanceToChord\<close>.\<close>

function makePositive :: "int \<Rightarrow> int" where
  "makePositive distance = (if distance < 0 then makePositive (distance + 12) else distance)"
  by pat_completeness auto
termination
  by (relation "measure (\<lambda>d. nat (- d))") auto

declare makePositive.simps [simp del]

definition notInScale :: "int \<Rightarrow> int \<Rightarrow> bool \<Rightarrow> bool" where
  "notInScale nextNote startNote majorKey =
     (let distance = makePositive (c_rem (nextNote - startNote) 12) in
      if majorKey \<and> (distance = 1 \<or> distance = 3 \<or> distance = 6 \<or> distance = 8 \<or> distance = 10)
      then True
      else if \<not> majorKey \<and> (distance = 1 \<or> distance = 4 \<or> distance = 6 \<or> distance = 9)
      then True
      else False)"

definition distanceToChord :: "bool \<Rightarrow> int \<Rightarrow> int" where
  "distanceToChord majorKey distance =
     (let d = c_rem (makePositive distance) 12 in
      if majorKey then
        (if d = 0 then 1 else if d = 2 then 2 else if d = 4 then 3 else if d = 5 then 4
         else if d = 7 then 5 else if d = 9 then 6 else if d = 11 then 7 else 0)
      else
        (if d = 0 then 1 else if d = 2 then 2 else if d = 3 then 3 else if d = 5 then 4
         else if d = 7 then 5 else if d = 8 then 6 else if d = 11 then 7
         else if d = 10 then 8 else 0))"

text \<open>The bass line that \<^verbatim>\<open>getNotes\<close> accepts: at least three notes, the first in the
  bass range, every later one in the bass range and in the scale of the first, and the
  last one a multiple of twelve away from the first.\<close>

definition validBass :: "bool \<Rightarrow> int list \<Rightarrow> bool" where
  "validBass majorKey bass =
     (3 \<le> length bass
      \<and> list_all (\<lambda>n. BASS_MIN \<le> n \<and> n \<le> BASS_MAX \<and> \<not> notInScale n (hd bass) majorKey) bass
      \<and> c_rem (last bass - hd bass) 12 = 0)"

section \<open>Chord relation table\<close>

definition setUpChordRels :: "bool \<Rightarrow> int list list" where
  "setUpChordRels majorKey =
     (let chordRelations = [[], [1, 2, 3, 4, 5, 6, 7], [5, 7], [4, 6], [1, 2, 5], [1, 6], [2, 4], [1, 5]]
      in if \<not> majorKey
         then (let r = chordRelations @ [[3]] in r[1 := r ! 1 @ [8]])
         else chordRelations)"

section \<open>Nearest tone search\<close>

text \<open>
  The binary searches. \<^verbatim>\<open>lhs\<close> starts at 0 and is only ever assigned \<^verbatim>\<open>avg + 1\<close> after
  \<^verbatim>\<open>chord[avg]\<close> has been read, so it is a natural number; \<^verbatim>\<open>rhs\<close> starts at
  \<^verbatim>\<open>chord.size() - 1\<close>, which is \<open>-1\<close> for an empty vector, and can fall to \<open>-1\<close>.
  The read after the loop is not guarded in the source.
\<close>

function nextLowerNote_loop :: "int list \<Rightarrow> int \<Rightarrow> nat \<Rightarrow> int \<Rightarrow> error + int" where
  "nextLowerNote_loop chord note lhs rhs =
     (if int lhs \<le> rhs then
        (let avg = c_div (int lhs + rhs) 2 in
         case at chord avg of
           Inl e \<Rightarrow> Inl e
         | Inr c \<Rightarrow>
             if c = note then Inr c
             else if c < note then nextLowerNote_loop chord note (nat (avg + 1)) rhs
             else nextLowerNote_loop chord note lhs (avg - 1))
      else at chord rhs)"
  by pat_completeness auto
termination
  by (relation "measure (\<lambda>(chord, note, lhs, rhs). nat (rhs - int lhs + 1))")
     (auto simp: c_div_def at_def sgn_if split: if_splits)

declare nextLowerNote_loop.simps [simp del]

definition nextLowerNote :: "int list \<Rightarrow> int \<Rightarrow> error + int" where
  "nextLowerNote chord note = nextLowerNote_loop chord note 0 (int (length chord) - 1)"

function nextHigherNote_loop :: "int list \<Rightarrow> int \<Rightarrow> nat \<Rightarrow> int \<Rightarrow> error + int" where
  "nextHigherNote_loop chord note lhs rhs =
     (if int lhs \<le> rhs then
        (let avg = c_div (int lhs + rhs + 1) 2 in
         case at chord avg of
           Inl e \<Rightarrow> Inl e
         | Inr c \<Rightarrow>
             if c = note then Inr c
             else if c < note then nextHigherNote_loop chord note (nat (avg + 1)) rhs
             else nextHigherNote_loop chord note lhs (avg - 1))
      else at chord (int lhs))"
  by pat_completeness auto
termination
  by (relation "measure (\<lambda>(chord, note, lhs, rhs). nat (rhs - int lhs + 1))")
     (auto simp: c_div_def at_def sgn_if split: if_splits)

declare nextHigherNote_loop.simps [simp del]

definition nextHigherNote :: "int list \<Rightarrow> int \<Rightarrow> error + int" where
  "nextHigherNote chord note = nextHigherNote_loop chord note 0 (int (length chord) - 1)"

section \<open>Chord progression solver\<close>

text \<open>
  The recursive \<^verbatim>\<open>createChordProgression\<close>. The vector \<^verbatim>\<open>chords\<close> is passed by
  reference and changed in place, so the model returns it next to the boolean, also when
  the boolean is false.
  \<^item> \<open>rootPositionChord\<close> is the computation of \<^verbatim>\<open>nextChord\<close> from \<^verbatim>\<open>bass[index + 1]\<close>,
    with VII replaced by V.
  \<^item> \<open>firstInversionChord\<close> is the computation of \<^verbatim>\<open>firstInvChord\<close> between the two
    loops; it reads \<^verbatim>\<open>bass[index + 2]\<close> only in a minor key when \<^verbatim>\<open>nextChord\<close> is 2.
  \<^item> \<open>tryChord\<close> is one of the two \<^verbatim>\<open>for\<close> loops over \<^verbatim>\<open>chordRelations[currentChord]\<close>:
    for an entry equal to the candidate it appends the candidate, recurses, and after a
    failed recursion calls \<^verbatim>\<open>chords.remove(index)\<close> and goes on with the next entry.
\<close>

definition rootPositionChord :: "bool \<Rightarrow> int \<Rightarrow> int \<Rightarrow> int" where
  "rootPositionChord majorKey nextBass startingNote =
     (let distance = c_rem (nextBass - startingNote) 12;
          nextChord = distanceToChord majorKey distance
      in if nextChord = 7 then 5 else nextChord)"

definition firstInversionChord :: "bool \<Rightarrow> int list \<Rightarrow> int \<Rightarrow> int \<Rightarrow> int \<Rightarrow> error + int" where
  "firstInversionChord majorKey bass index startingNote nextChord =
     (let firstInvChord = c_rem (nextChord - 2) 12 in
      if nextChord = 2 then
        (if majorKey then Inr 7
         else
           bindE (at bass (index + 2)) (\<lambda>b2.
             let nextDistance = c_rem (b2 - startingNote) 12;
                 nextNextChord = distanceToChord majorKey nextDistance
             in if nextNextChord = 3 then Inr 8 else Inr 7))
      else Inr firstInvChord)"

function createChordProgression_rec ::
    "bool \<Rightarrow> int list \<Rightarrow> int list \<Rightarrow> int list list \<Rightarrow> int \<Rightarrow> int \<Rightarrow> int \<Rightarrow> error + bool \<times> int list"
  and tryChord ::
    "bool \<Rightarrow> int list \<Rightarrow> int list \<Rightarrow> int list list \<Rightarrow> int \<Rightarrow> int \<Rightarrow> int \<Rightarrow> int list
       \<Rightarrow> error + bool \<times> int list"
where
  "createChordProgression_rec majorKey bass chords chordRelations index startingNote currentChord =
     (if index = int (length bass) - 2 then
        (if currentChord \<noteq> 5 then Inr (False, chords) else Inr (True, chords @ [1]))
      else
        (case at bass (index + 1) of
           Inl e \<Rightarrow> Inl e
         | Inr b1 \<Rightarrow>
            (case at chordRelations currentChord of
               Inl e \<Rightarrow> Inl e
             | Inr possibleChords \<Rightarrow>
                (case tryChord majorKey bass chords chordRelations index startingNote
                        (rootPositionChord majorKey b1 startingNote) possibleChords of
                   Inl e \<Rightarrow> Inl e
                 | Inr (found, chords1) \<Rightarrow>
                    if found then Inr (True, chords1)
                    else
                     (case firstInversionChord majorKey bass index startingNote
                             (rootPositionChord majorKey b1 startingNote) of
                        Inl e \<Rightarrow> Inl e
                      | Inr firstInvChord \<Rightarrow>
                         tryChord majorKey bass chords1 chordRelations index startingNote
                           firstInvChord possibleChords)))))"
| "tryChord majorKey bass chords chordRelations index startingNote candidate [] =
     Inr (False, chords)"
| "tryChord majorKey bass chords chordRelations index startingNote candidate
       (possibleChord # rest) =
     (if possibleChord = candidate then
        (case createChordProgression_rec majorKey bass (chords @ [candidate]) chordRelations
                (index + 1) startingNote candidate of
           Inl e \<Rightarrow> Inl e
         | Inr (found, chords1) \<Rightarrow>
            if found then Inr (True, chords1)
            else (case vector_remove chords1 index of
                    Inl e \<Rightarrow> Inl e
                  | Inr chords2 \<Rightarrow>
                     tryChord majorKey bass chords2 chordRelations index startingNote
                       candidate rest))
      else tryChord majorKey bass chords chordRelations index startingNote candidate rest)"
  by pat_completeness auto
termination
  by (relation "inv_image (less_than <*lex*> less_than)
        (\<lambda>x. case x of
           Inl (majorKey, bass, chords, chordRelations, index, startingNote, currentChord) \<Rightarrow>
             (if index + 1 < int (length bass) then 2 * nat (int (length bass) - index) + 2 else 0,
              0)
         | Inr (majorKey, bass, chords, chordRelations, index, startingNote, candidate, rest) \<Rightarrow>
             (2 * nat (int (length bass) - index) + 1, length rest))")
     (auto simp: at_def split: if_splits)

declare createChordProgression_rec.simps [simp del]

text \<open>The wrapper: \<^verbatim>\<open>startingNote = bass[0]\<close>, the chord I is appended, and the recursion
  starts at index 0 with current chord I.\<close>

definition createChordProgression ::
    "bool \<Rightarrow> int list \<Rightarrow> int list \<Rightarrow> int list list \<Rightarrow> error + bool \<times> int list" where
  "createChordProgression majorKey bass chords chordRelations =
     (case at bass 0 of
        Inl e \<Rightarrow> Inl e
      | Inr startingNote \<Rightarrow>
          createChordProgression_rec majorKey bass (chords @ [1]) chordRelations 0 startingNote 1)"

section \<open>Chord tone catalog\<close>

text \<open>
  The three fill procedures append to the vector they are given. Each is a \<^verbatim>\<open>while\<close>
  loop whose body holds two nested \<^verbatim>\<open>if\<close>s; when an inner test fails the body ends and
  the loop test is evaluated again on the advanced index.
\<close>

function fillMajorChordVector :: "int list \<Rightarrow> int \<Rightarrow> int list" where
  "fillMajorChordVector v index =
     (if index \<le> SOPRANO_MAX then
        (let v1 = v @ [index]; index1 = index + 4 in
         if index1 \<le> SOPRANO_MAX then
           (let v2 = v1 @ [index1]; index2 = index1 + 3 in
            if index2 \<le> SOPRANO_MAX then fillMajorChordVector (v2 @ [index2]) (index2 + 5)
            else fillMajorChordVector v2 index2)
         else fillMajorChordVector v1 index1)
      else v)"
  by pat_completeness auto
termination
  by (relation "measure (\<lambda>(v, index). nat (SOPRANO_MAX + 1 - index))") auto

declare fillMajorChordVector.simps [simp del]

function fillMinorChordVector :: "int list \<Rightarrow> int \<Rightarrow> int list" where
  "fillMinorChordVector v index =
     (if index \<le> SOPRANO_MAX then
        (let v1 = v @ [index]; index1 = index + 3 in
         if index1 \<le> SOPRANO_MAX then
           (let v2 = v1 @ [index1]; index2 = index1 + 4 in
            if index2 \<le> SOPRANO_MAX then fillMinorChordVector (v2 @ [index2]) (index2 + 5)
            else fillMinorChordVector v2 index2)
         else fillMinorChordVector v1 index1)
      else v)"
  by pat_completeness auto
termination
  by (relation "measure (\<lambda>(v, index). nat (SOPRANO_MAX + 1 - index))") auto

declare fillMinorChordVector.simps [simp del]

function fillDimChordVector :: "int list \<Rightarrow> int \<Rightarrow> int list" where
  "fillDimChordVector v index =
     (if index \<le> SOPRANO_MAX then
        (let v1 = v @ [index]; index1 = index + 3 in
         if index1 \<le> SOPRANO_MAX then
           (let v2 = v1 @ [index1]; index2 = index1 + 3 in
            if index2 \<le> SOPRANO_MAX then fillDimChordVector (v2 @ [index2]) (index2 + 6)
            else fillDimChordVector v2 index2)
         else fillDimChordVector v1 index1)
      else v)"
  by pat_completeness auto
termination
  by (relation "measure (\<lambda>(v, index). nat (SOPRANO_MAX + 1 - index))") auto

declare fillDimChordVector.simps [simp del]

text \<open>The loop \<^verbatim>\<open>while (startNote >= 12) startNote -= 12;\<close>.\<close>

function lowestOctave :: "int \<Rightarrow> int" where
  "lowestOctave startNote = (if startNote \<ge> 12 then lowestOctave (startNote - 12) else startNote)"
  by pat_completeness auto
termination
  by (relation "measure (\<lambda>n. nat n)") auto

declare lowestOctave.simps [simp del]

text \<open>
  The two \<^verbatim>\<open>for\<close> loops of \<^verbatim>\<open>establishNotesInChords\<close>, over \<open>i\<close> from 1 to 7 in a major
  key and from 1 to 8 in a minor key, with the running \<^verbatim>\<open>distance\<close>. \<^verbatim>\<open>notesInChords\<close>
  has nine entries and \<open>i\<close> is at most 8, so \<^verbatim>\<open>notesInChords[i]\<close> is always an element.
\<close>

function majorChordsLoop :: "int \<Rightarrow> nat \<Rightarrow> int \<Rightarrow> int list list \<Rightarrow> int list list" where
  "majorChordsLoop startNote i distance notesInChords =
     (if i \<le> 7 then
        (let n1 = (if i = 1 \<or> i = 4 \<or> i = 5
                   then notesInChords[i := fillMajorChordVector (notesInChords ! i) (startNote + distance)]
                   else notesInChords);
             n2 = (if i = 2 \<or> i = 3 \<or> i = 6
                   then n1[i := fillMinorChordVector (n1 ! i) (startNote + distance)]
                   else n1);
             n3 = (if i = 7
                   then n2[i := fillDimChordVector (n2 ! i) (startNote + distance)]
                   else n2);
             d1 = distance + 1;
             d2 = (if i \<noteq> 3 then d1 + 1 else d1)
         in majorChordsLoop startNote (i + 1) d2 n3)
      else notesInChords)"
  by pat_completeness auto
termination
  by (relation "measure (\<lambda>(startNote, i, distance, notesInChords). 8 - i)") auto

declare majorChordsLoop.simps [simp del]

function minorChordsLoop :: "int \<Rightarrow> nat \<Rightarrow> int \<Rightarrow> int list list \<Rightarrow> int list list" where
  "minorChordsLoop startNote i distance notesInChords =
     (if i \<le> 8 then
        (let n1 = (if i = 3 \<or> i = 5 \<or> i = 6 \<or> i = 8
                   then notesInChords[i := fillMajorChordVector (notesInChords ! i) (startNote + distance)]
                   else notesInChords);
             n2 = (if i = 1 \<or> i = 4
                   then n1[i := fillMinorChordVector (n1 ! i) (startNote + distance)]
                   else n1);
             n3 = (if i = 2 \<or> i = 7
                   then n2[i := fillDimChordVector (n2 ! i) (startNote + distance)]
                   else n2);
             d1 = distance + 1;
             d2 = (if i \<noteq> 2 \<and> i \<noteq> 5 then d1 + 1 else d1);
             d3 = (if i = 6 then d2 + 1 else d2);
             d4 = (if i = 7 then d3 - 2 else d3)
         in minorChordsLoop startNote (i + 1) d4 n3)
      else notesInChords)"
  by pat_completeness auto
termination
  by (relation "measure (\<lambda>(startNote, i, distance, notesInChords). 9 - i)") auto

declare minorChordsLoop.simps [simp del]

definition establishNotesInChords :: "int \<Rightarrow> bool \<Rightarrow> int list list" where
  "establishNotesInChords startNote majorKey =
     (let startNote1 = lowestOctave startNote;
          notesInChords = replicate 9 []
      in if majorKey then majorChordsLoop startNote1 1 0 notesInChords
         else minorChordsLoop startNote1 1 0 notesInChords)"

section \<open>Voice leading solver\<close>

text \<open>The three vectors \<^verbatim>\<open>soprano\<close>, \<^verbatim>\<open>alto\<close> and \<^verbatim>\<open>tenor\<close> that the solver is handed
  by reference and appends to.\<close>

record voices =
  soprano :: "int list"
  alto :: "int list"
  tenor :: "int list"

text \<open>The first test of \<^verbatim>\<open>canCreateChoraleHelper\<close>: the last pitch of some voice lies
  outside the range of the voice.\<close>

definition outOfRange :: "voices \<Rightarrow> error + bool" where
  "outOfRange v =
     orE (bindE (vec_back (soprano v)) (\<lambda>s. Inr (s > SOPRANO_MAX)))
    (orE (bindE (vec_back (alto v)) (\<lambda>a. Inr (a > ALTO_MAX)))
    (orE (bindE (vec_back (tenor v)) (\<lambda>t. Inr (t > TENOR_MAX)))
    (orE (bindE (vec_back (soprano v)) (\<lambda>s. Inr (s < SOPRANO_MIN)))
    (orE (bindE (vec_back (alto v)) (\<lambda>a. Inr (a < ALTO_MIN)))
         (bindE (vec_back (tenor v)) (\<lambda>t. Inr (t < TENOR_MIN)))))))"

text \<open>The test \<^verbatim>\<open>if (index < (int)(bass.size() - 1)) if (tenor.back() < bass[index + 1])
  return false;\<close> that ends both moving branches. The result is whether the search goes
  on.\<close>

definition tenorAboveNextBass :: "int list \<Rightarrow> int \<Rightarrow> int \<Rightarrow> error + bool" where
  "tenorAboveNextBass bass index t =
     (if index < int (length bass) - 1
      then bindE (at bass (index + 1)) (\<lambda>bn. Inr (\<not> t < bn))
      else Inr True)"

text \<open>
  One step of \<^verbatim>\<open>canCreateChoraleHelper\<close>: everything between the range test and the
  recursive call. The result is whether the search goes on (false where the source returns
  false), the three vectors with what was appended, and the value of \<^verbatim>\<open>LTCorrected\<close>
  that the recursive call receives.
\<close>

definition moveVoices ::
    "bool \<Rightarrow> int list \<Rightarrow> int list list \<Rightarrow> voices \<Rightarrow> int list \<Rightarrow> int \<Rightarrow> bool
       \<Rightarrow> error + bool \<times> voices \<times> bool" where
  "moveVoices majorKey chords notesInChords v bass index LTCorrected =
     bindE (at bass index) (\<lambda>bi.
     bindE (at bass (index - 1)) (\<lambda>bp.
       if bi < bp \<or> bi - bp = 5 then
         bindE (vector_get chords index) (\<lambda>c.
         bindE (at notesInChords c) (\<lambda>chord.
         bindE (vec_back (soprano v)) (\<lambda>sb.
         bindE (nextHigherNote chord (if LTCorrected then sb - 3 else sb)) (\<lambda>s1.
         bindE (vec_back (alto v)) (\<lambda>ab.
         bindE (nextHigherNote chord ab) (\<lambda>a1.
         bindE (vec_back (tenor v)) (\<lambda>tb.
         bindE (nextHigherNote chord tb) (\<lambda>t1.
           let v1 = \<lparr>soprano = soprano v @ [s1], alto = alto v @ [a1], tenor = tenor v @ [t1]\<rparr>
           in if s1 > SOPRANO_MAX \<or> a1 > ALTO_MAX \<or> t1 > TENOR_MAX
              then Inr (False, v1, LTCorrected)
              else bindE (tenorAboveNextBass bass index t1) (\<lambda>ok.
                     Inr (ok, v1, LTCorrected))))))))))
       else if bi > bp then
         bindE (vector_get chords (index - 1)) (\<lambda>cp.
         bindE (vec_back (soprano v)) (\<lambda>sb.
         bindE (if cp = 5
                then bindE (at bass 0) (\<lambda>b0. Inr (distanceToChord majorKey (sb - b0) = 7))
                else Inr False) (\<lambda>leading.
         bindE (vector_get chords index) (\<lambda>c.
         bindE (at notesInChords c) (\<lambda>chord.
         bindE (if leading then Inr (sb + 1, True)
                else if LTCorrected
                then bindE (nextLowerNote chord (sb - 3)) (\<lambda>s1. Inr (s1, False))
                else bindE (nextLowerNote chord sb) (\<lambda>s1. Inr (s1, LTCorrected)))
           (\<lambda>(s1, LTCorrected1).
         bindE (vec_back (alto v)) (\<lambda>ab.
         bindE (nextLowerNote chord ab) (\<lambda>a1.
         bindE (vec_back (tenor v)) (\<lambda>tb.
         bindE (nextLowerNote chord tb) (\<lambda>t1.
           let v1 = \<lparr>soprano = soprano v @ [s1], alto = alto v @ [a1], tenor = tenor v @ [t1]\<rparr>
           in bindE (tenorAboveNextBass bass index t1) (\<lambda>ok.
                Inr (ok, v1, LTCorrected1))))))))))))
       else Inr (True, v, LTCorrected)))"

function canCreateChoraleHelper ::
    "bool \<Rightarrow> int list \<Rightarrow> int list list \<Rightarrow> voices \<Rightarrow> int list \<Rightarrow> int \<Rightarrow> bool
       \<Rightarrow> error + bool \<times> voices" where
  "canCreateChoraleHelper majorKey chords notesInChords v bass index LTCorrected =
     (if index \<ge> int (length chords) then Inr (True, v)
      else
        (case outOfRange v of
           Inl e \<Rightarrow> Inl e
         | Inr out \<Rightarrow>
            if out then Inr (False, v)
            else
             (case moveVoices majorKey chords notesInChords v bass index LTCorrected of
                Inl e \<Rightarrow> Inl e
              | Inr (ok, v1, LTCorrected1) \<Rightarrow>
                 if ok
                 then canCreateChoraleHelper majorKey chords notesInChords v1 bass (index + 1)
                        LTCorrected1
                 else Inr (False, v1))))"
  by pat_completeness auto
termination
  by (relation "measure (\<lambda>(majorKey, chords, notesInChords, v, bass, index, LTCorrected).
        nat (int (length chords) - index))") auto

declare canCreateChoraleHelper.simps [simp del]

text \<open>
  \<^verbatim>\<open>canCreateChorale\<close>. \<^verbatim>\<open>highestTonicIndex\<close> is computed in \<^verbatim>\<open>size_t\<close> arithmetic:
  for an empty \<^verbatim>\<open>notesInChords[1]\<close> the subtraction wraps to the largest value, a multiple
  of three, which converts to \<open>-1\<close>. The second to fourth starting voicings are each
  tried on cleared vectors; \<open>startVoicing\<close> is the three \<^verbatim>\<open>push_back\<close> calls followed by
  the call of the helper at index 1.
\<close>

definition startVoicing ::
    "bool \<Rightarrow> int list \<Rightarrow> int list list \<Rightarrow> voices \<Rightarrow> int list \<Rightarrow> int list \<Rightarrow> int \<Rightarrow> int \<Rightarrow> int
       \<Rightarrow> error + bool \<times> voices" where
  "startVoicing majorKey chords notesInChords v bass tonic si ai ti =
     bindE (at tonic si) (\<lambda>s0.
     bindE (at tonic ai) (\<lambda>a0.
     bindE (at tonic ti) (\<lambda>t0.
       canCreateChoraleHelper majorKey chords notesInChords
         \<lparr>soprano = soprano v @ [s0], alto = alto v @ [a0], tenor = tenor v @ [t0]\<rparr>
         bass 1 False)))"

definition cleared :: voices where
  "cleared = \<lparr>soprano = [], alto = [], tenor = []\<rparr>"

definition canCreateChorale ::
    "bool \<Rightarrow> int list \<Rightarrow> int list list \<Rightarrow> voices \<Rightarrow> int list \<Rightarrow> error + bool \<times> voices" where
  "canCreateChorale majorKey chords notesInChords v bass =
     bindE (at notesInChords 1) (\<lambda>tonic.
     let h0 = (if tonic = [] then - 1 else c_div (int (length tonic) - 1) 3 * 3) in
     bindE (andE (orE (bindE (at tonic (h0 - 1)) (\<lambda>x. Inr (x > ALTO_MAX)))
                      (bindE (at tonic (h0 - 2)) (\<lambda>x. Inr (x > TENOR_MAX))))
                 (bindE (at tonic (h0 - 3)) (\<lambda>x. Inr (x > SOPRANO_MIN)))) (\<lambda>lower.
     let h1 = (if lower then h0 - 3 else h0) in
     bindE (startVoicing majorKey chords notesInChords v bass tonic h1 (h1 - 1) (h1 - 2))
       (\<lambda>(ok1, v1).
     if ok1 then Inr (True, v1)
     else
     bindE (at tonic (h1 + 3)) (\<lambda>x.
     let h2 = (if x \<le> SOPRANO_MAX then h1 + 3 else h1) in
     bindE (andE (bindE (at tonic (h2 - 4)) (\<lambda>y. bindE (at bass 0) (\<lambda>b0. Inr (y > b0))))
                 (bindE (at tonic (h2 - 4)) (\<lambda>y. Inr (y > TENOR_MIN)))) (\<lambda>second.
     bindE (if second
            then startVoicing majorKey chords notesInChords cleared bass tonic h2 (h2 - 2) (h2 - 4)
            else Inr (False, cleared)) (\<lambda>(ok2, v2).
     if ok2 then Inr (True, v2)
     else
     bindE (at tonic (h2 + 1)) (\<lambda>z.
     if z \<le> SOPRANO_MAX
     then startVoicing majorKey chords notesInChords cleared bass tonic (h2 + 1) h2 (h2 - 1)
     else
       bindE (bindE (at tonic (h2 - 4)) (\<lambda>y. bindE (at bass 0) (\<lambda>b0. Inr (y > b0)))) (\<lambda>fourth.
       if fourth
       then startVoicing majorKey chords notesInChords cleared bass tonic (h2 - 2) h2 (h2 - 1)
       else Inr (False, cleared)))))))))"

section \<open>Properties of the nearest tone search\<close>

lemma c_div_2_nonneg: "0 \<le> a \<Longrightarrow> c_div a 2 = a div 2"
  by (simp add: c_div_def sgn_if)

lemma at_in_range: "0 \<le> i \<Longrightarrow> i < int (length v) \<Longrightarrow> at v i = Inr (v ! nat i)"
  by (simp add: at_def)

lemma strict_nth_mono:
  "sorted_wrt (<) (xs :: int list) \<Longrightarrow> i \<le> j \<Longrightarrow> j < length xs \<Longrightarrow> xs ! i \<le> xs ! j"
  by (cases "i = j") (auto simp: sorted_wrt_iff_nth_less less_imp_le)

lemma Max_below_eq:
  assumes "sorted_wrt (<) (chord :: int list)" and "k < length chord" and "chord ! k \<le> target"
    and "\<forall>i. k < i \<and> i < length chord \<longrightarrow> target < chord ! i"
  shows "Max {u \<in> set chord. u \<le> target} = chord ! k"
proof (rule Max_eqI)
  show "finite {u \<in> set chord. u \<le> target}" by simp
  show "chord ! k \<in> {u \<in> set chord. u \<le> target}" using assms by simp
  fix y assume "y \<in> {u \<in> set chord. u \<le> target}"
  then obtain i where i: "i < length chord" "chord ! i = y" "y \<le> target"
    by (auto simp: in_set_conv_nth)
  with assms(4) have "i \<le> k" by (metis not_le_imp_less not_less)
  with assms(1,2) i show "y \<le> chord ! k" using strict_nth_mono by blast
qed

lemma Min_above_eq:
  assumes "sorted_wrt (<) (chord :: int list)" and "k < length chord" and "target \<le> chord ! k"
    and "\<forall>i. i < k \<longrightarrow> chord ! i < target"
  shows "Min {u \<in> set chord. target \<le> u} = chord ! k"
proof (rule Min_eqI)
  show "finite {u \<in> set chord. target \<le> u}" by simp
  show "chord ! k \<in> {u \<in> set chord. target \<le> u}" using assms by simp
  fix y assume "y \<in> {u \<in> set chord. target \<le> u}"
  then obtain i where i: "i < length chord" "chord ! i = y" "target \<le> y"
    by (auto simp: in_set_conv_nth)
  with assms(4) have "k \<le> i" by (metis not_le_imp_less not_less)
  with assms(1) i show "chord ! k \<le> y" using strict_nth_mono by blast
qed

lemma nextLowerNote_loop_exit:
  "\<not> int lhs \<le> rhs \<Longrightarrow> nextLowerNote_loop chord target lhs rhs = at chord rhs"
  by (simp add: nextLowerNote_loop.simps)

lemma nextLowerNote_loop_result:
  assumes "sorted_wrt (<) chord"
    and "rhs < int (length chord)" and "int lhs \<le> rhs + 1"
    and "\<forall>i. i < lhs \<longrightarrow> chord ! i < target"
    and "\<forall>i. rhs < int i \<and> i < length chord \<longrightarrow> target < chord ! i"
  shows "nextLowerNote_loop chord target lhs rhs =
           (if \<exists>u \<in> set chord. u \<le> target then Inr (Max {u \<in> set chord. u \<le> target})
            else Inl OutOfBounds)"
  using assms
proof (induction chord target lhs rhs rule: nextLowerNote_loop.induct)
  case (1 chord target lhs rhs)
  show ?case
  proof (cases "int lhs \<le> rhs")
    case False
    with "1.prems" have eq: "int lhs = rhs + 1" by simp
    have exit: "nextLowerNote_loop chord target lhs rhs = at chord rhs"
      using False by (rule nextLowerNote_loop_exit)
    show ?thesis
    proof (cases "lhs = 0")
      case True
      with eq have "rhs = - 1" by simp
      with "1.prems"(5) have "\<forall>i. i < length chord \<longrightarrow> target < chord ! i" by simp
      then have "\<not> (\<exists>u \<in> set chord. u \<le> target)" by (fastforce simp: in_set_conv_nth)
      with \<open>rhs = - 1\<close> exit show ?thesis
        by (simp add: at_def)
    next
      case F2: False
      define k where "k = lhs - 1"
      with F2 eq have k: "rhs = int k" "k < lhs" by auto
      with "1.prems" have kl: "k < length chord" and below: "chord ! k \<le> target"
        by (auto simp: less_imp_le)
      have "\<forall>i. k < i \<and> i < length chord \<longrightarrow> target < chord ! i"
        using "1.prems"(5) k by simp
      with "1.prems"(1) kl below have "Max {u \<in> set chord. u \<le> target} = chord ! k"
        by (rule Max_below_eq)
      moreover have "\<exists>u \<in> set chord. u \<le> target" using kl below nth_mem by blast
      ultimately show ?thesis using exit k kl
        by (simp add: at_def)
    qed
  next
    case True
    define avg where "avg = (int lhs + rhs) div 2"
    have cd: "c_div (int lhs + rhs) 2 = avg" using True by (simp add: c_div_2_nonneg avg_def)
    have avg: "int lhs \<le> avg" "avg \<le> rhs" using True by (auto simp: avg_def)
    with "1.prems" have inr: "0 \<le> avg" "avg < int (length chord)" by auto
    then have atavg: "at chord avg = Inr (chord ! nat avg)" by (rule at_in_range)
    have nl: "nat avg < length chord" using inr by simp
    consider (eq) "chord ! nat avg = target" | (lt) "chord ! nat avg < target" | (gt) "target < chord ! nat avg"
      by linarith
    then show ?thesis
    proof cases
      case eq
      have "Max {u \<in> set chord. u \<le> target} = target"
        by (rule Max_eqI) (use eq nl in \<open>auto simp: in_set_conv_nth\<close>)
      moreover have "\<exists>u \<in> set chord. u \<le> target" using eq nl nth_mem by blast
      ultimately show ?thesis using True eq atavg cd
        by (simp add: nextLowerNote_loop.simps [of chord target lhs rhs])
    next
      case lt
      have step: "nextLowerNote_loop chord target lhs rhs = nextLowerNote_loop chord target (nat (avg + 1)) rhs"
        using True lt atavg cd by (simp add: nextLowerNote_loop.simps [of chord target lhs rhs])
      have inv: "\<forall>i. i < nat (avg + 1) \<longrightarrow> chord ! i < target"
      proof (intro allI impI)
        fix i assume "i < nat (avg + 1)"
        then have "i \<le> nat avg" using inr by simp
        with "1.prems"(1) nl have "chord ! i \<le> chord ! nat avg" using strict_nth_mono by blast
        with lt show "chord ! i < target" by simp
      qed
      have "nextLowerNote_loop chord target (nat (avg + 1)) rhs =
           (if \<exists>u \<in> set chord. u \<le> target then Inr (Max {u \<in> set chord. u \<le> target})
            else Inl OutOfBounds)"
        using "1.IH"(1) [OF True cd [symmetric] atavg _ lt "1.prems"(1,2) _ inv "1.prems"(5)]
          lt avg inr by simp
      with step show ?thesis by simp
    next
      case gt
      have step: "nextLowerNote_loop chord target lhs rhs = nextLowerNote_loop chord target lhs (avg - 1)"
        using True gt atavg cd by (simp add: nextLowerNote_loop.simps [of chord target lhs rhs])
      have inv: "\<forall>i. avg - 1 < int i \<and> i < length chord \<longrightarrow> target < chord ! i"
      proof (intro allI impI)
        fix i assume a: "avg - 1 < int i \<and> i < length chord"
        then have "nat avg \<le> i" using inr by linarith
        with "1.prems"(1) a have "chord ! nat avg \<le> chord ! i" using strict_nth_mono by blast
        with gt show "target < chord ! i" by simp
      qed
      have "nextLowerNote_loop chord target lhs (avg - 1) =
           (if \<exists>u \<in> set chord. u \<le> target then Inr (Max {u \<in> set chord. u \<le> target})
            else Inl OutOfBounds)"
        using "1.IH"(2) [OF True cd [symmetric] atavg _ _ "1.prems"(1) _ _ "1.prems"(4) inv]
          gt avg inr by simp
      with step show ?thesis by simp
    qed
  qed
qed


lemma nextHigherNote_loop_exit:
  "\<not> int lhs \<le> rhs \<Longrightarrow> nextHigherNote_loop chord target lhs rhs = at chord (int lhs)"
  by (simp add: nextHigherNote_loop.simps)

lemma nextHigherNote_loop_result:
  assumes "sorted_wrt (<) chord"
    and "rhs < int (length chord)" and "int lhs \<le> rhs + 1"
    and "\<forall>i. i < lhs \<longrightarrow> chord ! i < target"
    and "\<forall>i. rhs < int i \<and> i < length chord \<longrightarrow> target < chord ! i"
  shows "nextHigherNote_loop chord target lhs rhs =
           (if \<exists>u \<in> set chord. target \<le> u then Inr (Min {u \<in> set chord. target \<le> u})
            else Inl OutOfBounds)"
  using assms
proof (induction chord target lhs rhs rule: nextHigherNote_loop.induct)
  case (1 chord target lhs rhs)
  show ?case
  proof (cases "int lhs \<le> rhs")
    case False
    with "1.prems" have eq: "int lhs = rhs + 1" by simp
    have exit: "nextHigherNote_loop chord target lhs rhs = at chord (int lhs)"
      using False by (rule nextHigherNote_loop_exit)
    show ?thesis
    proof (cases "lhs < length chord")
      case True
      with "1.prems"(5) eq have above: "target \<le> chord ! lhs" by (simp add: less_imp_le)
      with "1.prems"(1) True have "Min {u \<in> set chord. target \<le> u} = chord ! lhs"
        using "1.prems"(4) by (rule Min_above_eq)
      moreover have "\<exists>u \<in> set chord. target \<le> u" using True above nth_mem by blast
      ultimately show ?thesis using exit True by (simp add: at_def)
    next
      case F2: False
      with "1.prems"(2) eq have "lhs = length chord" by simp
      with "1.prems"(4) have "\<not> (\<exists>u \<in> set chord. target \<le> u)"
        by (fastforce simp: in_set_conv_nth)
      with exit F2 show ?thesis by (simp add: at_def)
    qed
  next
    case True
    define avg where "avg = (int lhs + rhs + 1) div 2"
    have cd: "c_div (int lhs + rhs + 1) 2 = avg" using True by (simp add: c_div_2_nonneg avg_def)
    have avg: "int lhs \<le> avg" "avg \<le> rhs" using True by (auto simp: avg_def)
    with "1.prems" have inr: "0 \<le> avg" "avg < int (length chord)" by auto
    then have atavg: "at chord avg = Inr (chord ! nat avg)" by (rule at_in_range)
    have nl: "nat avg < length chord" using inr by simp
    consider (eq) "chord ! nat avg = target" | (lt) "chord ! nat avg < target"
      | (gt) "target < chord ! nat avg"
      by linarith
    then show ?thesis
    proof cases
      case eq
      have "Min {u \<in> set chord. target \<le> u} = target"
        by (rule Min_eqI) (use eq nl in \<open>auto simp: in_set_conv_nth\<close>)
      moreover have "\<exists>u \<in> set chord. target \<le> u" using eq nl nth_mem by blast
      ultimately show ?thesis using True eq atavg cd
        by (simp add: nextHigherNote_loop.simps [of chord target lhs rhs])
    next
      case lt
      have step: "nextHigherNote_loop chord target lhs rhs =
                  nextHigherNote_loop chord target (nat (avg + 1)) rhs"
        using True lt atavg cd by (simp add: nextHigherNote_loop.simps [of chord target lhs rhs])
      have inv: "\<forall>i. i < nat (avg + 1) \<longrightarrow> chord ! i < target"
      proof (intro allI impI)
        fix i assume "i < nat (avg + 1)"
        then have "i \<le> nat avg" using inr by simp
        with "1.prems"(1) nl have "chord ! i \<le> chord ! nat avg" using strict_nth_mono by blast
        with lt show "chord ! i < target" by simp
      qed
      have "nextHigherNote_loop chord target (nat (avg + 1)) rhs =
           (if \<exists>u \<in> set chord. target \<le> u then Inr (Min {u \<in> set chord. target \<le> u})
            else Inl OutOfBounds)"
        using "1.IH"(1) [OF True cd [symmetric] atavg _ lt "1.prems"(1,2) _ inv "1.prems"(5)]
          lt avg inr by simp
      with step show ?thesis by simp
    next
      case gt
      have step: "nextHigherNote_loop chord target lhs rhs =
                  nextHigherNote_loop chord target lhs (avg - 1)"
        using True gt atavg cd by (simp add: nextHigherNote_loop.simps [of chord target lhs rhs])
      have inv: "\<forall>i. avg - 1 < int i \<and> i < length chord \<longrightarrow> target < chord ! i"
      proof (intro allI impI)
        fix i assume a: "avg - 1 < int i \<and> i < length chord"
        then have "nat avg \<le> i" using inr by linarith
        with "1.prems"(1) a have "chord ! nat avg \<le> chord ! i" using strict_nth_mono by blast
        with gt show "target < chord ! i" by simp
      qed
      have "nextHigherNote_loop chord target lhs (avg - 1) =
           (if \<exists>u \<in> set chord. target \<le> u then Inr (Min {u \<in> set chord. target \<le> u})
            else Inl OutOfBounds)"
        using "1.IH"(2) [OF True cd [symmetric] atavg _ _ "1.prems"(1) _ _ "1.prems"(4) inv]
          gt avg inr by simp
      with step show ?thesis by simp
    qed
  qed
qed

lemma nextLowerNote_result:
  "sorted_wrt (<) chord \<Longrightarrow>
   nextLowerNote chord target =
     (if \<exists>u \<in> set chord. u \<le> target then Inr (Max {u \<in> set chord. u \<le> target})
      else Inl OutOfBounds)"
  unfolding nextLowerNote_def by (rule nextLowerNote_loop_result) auto

lemma nextHigherNote_result:
  "sorted_wrt (<) chord \<Longrightarrow>
   nextHigherNote chord target =
     (if \<exists>u \<in> set chord. target \<le> u then Inr (Min {u \<in> set chord. target \<le> u})
      else Inl OutOfBounds)"
  unfolding nextHigherNote_def by (rule nextHigherNote_loop_result) auto



text \<open>
  Claim C5. For a strictly ascending sequence and a target between its first and its last
  element, \<open>nextLowerNote\<close> returns the greatest element that is at most the target,
  \<open>nextHigherNote\<close> returns the least element that is at least the target, and both
  return the target when it is an element of the sequence.
\<close>

theorem nearest_tone_search_correct:
  assumes "sorted_wrt (<) seq" and "seq \<noteq> []" and "hd seq \<le> t" and "t \<le> last seq"
  shows "nextLowerNote seq t = Inr (Max {v \<in> set seq. v \<le> t})
       \<and> nextHigherNote seq t = Inr (Min {v \<in> set seq. t \<le> v})
       \<and> (t \<in> set seq \<longrightarrow> nextLowerNote seq t = Inr t \<and> nextHigherNote seq t = Inr t)"
proof -
  have lo: "\<exists>u \<in> set seq. u \<le> t" using assms(2,3) hd_in_set by blast
  have hi: "\<exists>u \<in> set seq. t \<le> u" using assms(2,4) last_in_set by blast
  have l: "nextLowerNote seq t = Inr (Max {v \<in> set seq. v \<le> t})"
    using nextLowerNote_result [OF assms(1), of t] lo by simp
  have h: "nextHigherNote seq t = Inr (Min {v \<in> set seq. t \<le> v})"
    using nextHigherNote_result [OF assms(1), of t] hi by simp
  have "Max {v \<in> set seq. v \<le> t} = t" if "t \<in> set seq"
    by (rule Max_eqI) (use that in auto)
  moreover have "Min {v \<in> set seq. t \<le> v} = t" if "t \<in> set seq"
    by (rule Min_eqI) (use that in auto)
  ultimately show ?thesis using l h by simp
qed

theorem nearest_tone_search_correct_witness:
  "sorted_wrt (<) [0, 4, 7, 12 :: int] \<and> hd [0, 4, 7, 12 :: int] \<le> 5 \<and> 5 \<le> last [0, 4, 7, 12 :: int]
   \<and> nextLowerNote [0, 4, 7, 12] 5 = Inr 4 \<and> nextHigherNote [0, 4, 7, 12] 5 = Inr 7
   \<and> 7 \<in> set [0, 4, 7, 12 :: int]
   \<and> nextLowerNote [0, 4, 7, 12] 7 = Inr 7 \<and> nextHigherNote [0, 4, 7, 12] 7 = Inr 7"
proof -
  have a: "Max {v \<in> set [0, 4, 7, 12 :: int]. v \<le> 5} = 4"
    by (rule Max_eqI) auto
  have b: "Min {v \<in> set [0, 4, 7, 12 :: int]. 5 \<le> v} = 7"
    by (rule Min_eqI) auto
  have c: "Max {v \<in> set [0, 4, 7, 12 :: int]. v \<le> 7} = 7"
    by (rule Max_eqI) auto
  have d: "Min {v \<in> set [0, 4, 7, 12 :: int]. 7 \<le> v} = 7"
    by (rule Min_eqI) auto
  show ?thesis
    using nearest_tone_search_correct [of "[0, 4, 7, 12]" 5]
      nearest_tone_search_correct [of "[0, 4, 7, 12]" 7] a b c d
    by simp
qed




section \<open>Properties of the chord tone catalog\<close>

lemma fillMajorChordVector_ascending:
  "sorted_wrt (<) v \<Longrightarrow> \<forall>x \<in> set v. x < index \<Longrightarrow> sorted_wrt (<) (fillMajorChordVector v index)"
proof (induction v index rule: fillMajorChordVector.induct)
  case (1 v index)
  note IH = "1.IH" and pre = "1.prems"
  have s1: "sorted_wrt (<) (v @ [index])"
    and s2: "sorted_wrt (<) ((v @ [index]) @ [index + 4])"
    and s3: "sorted_wrt (<) (((v @ [index]) @ [index + 4]) @ [index + 4 + 3])"
    using pre by (auto simp: sorted_wrt_append)
  have b1: "\<forall>x \<in> set (v @ [index]). x < index + 4"
    and b2: "\<forall>x \<in> set ((v @ [index]) @ [index + 4]). x < index + 4 + 3"
    and b3: "\<forall>x \<in> set (((v @ [index]) @ [index + 4]) @ [index + 4 + 3]). x < index + 4 + 3 + 5"
    using pre by fastforce+
  show ?case
  proof (cases "index \<le> SOPRANO_MAX")
    case False
    then show ?thesis using pre by (simp add: fillMajorChordVector.simps)
  next
    case T1: True
    show ?thesis
    proof (cases "index + 4 \<le> SOPRANO_MAX")
      case F2: False
      have "sorted_wrt (<) (fillMajorChordVector (v @ [index]) (index + 4))"
        using IH(3) [OF T1 refl refl F2 s1 b1] by simp
      then show ?thesis using T1 F2 by (simp add: fillMajorChordVector.simps [of v index] Let_def)
    next
      case T2: True
      show ?thesis
      proof (cases "index + 4 + 3 \<le> SOPRANO_MAX")
        case F3: False
        have "sorted_wrt (<) (fillMajorChordVector (v @ [index, index + 4]) (index + 4 + 3))"
          using IH(2) [OF T1 refl refl T2 refl refl F3 s2 b2] by simp
        then show ?thesis using T1 T2 F3 by (simp add: fillMajorChordVector.simps [of v index] Let_def)
      next
        case T3: True
        have "sorted_wrt (<) (fillMajorChordVector (v @ [index, index + 4, index + 4 + 3]) (index + 4 + 3 + 5))"
          using IH(1) [OF T1 refl refl T2 refl refl T3 s3 b3] by simp
        then show ?thesis using T1 T2 T3 by (simp add: fillMajorChordVector.simps [of v index] Let_def)
      qed
    qed
  qed
qed

lemma fillMinorChordVector_ascending:
  "sorted_wrt (<) v \<Longrightarrow> \<forall>x \<in> set v. x < index \<Longrightarrow> sorted_wrt (<) (fillMinorChordVector v index)"
proof (induction v index rule: fillMinorChordVector.induct)
  case (1 v index)
  note IH = "1.IH" and pre = "1.prems"
  have s1: "sorted_wrt (<) (v @ [index])"
    and s2: "sorted_wrt (<) ((v @ [index]) @ [index + 3])"
    and s3: "sorted_wrt (<) (((v @ [index]) @ [index + 3]) @ [index + 3 + 4])"
    using pre by (auto simp: sorted_wrt_append)
  have b1: "\<forall>x \<in> set (v @ [index]). x < index + 3"
    and b2: "\<forall>x \<in> set ((v @ [index]) @ [index + 3]). x < index + 3 + 4"
    and b3: "\<forall>x \<in> set (((v @ [index]) @ [index + 3]) @ [index + 3 + 4]). x < index + 3 + 4 + 5"
    using pre by fastforce+
  show ?case
  proof (cases "index \<le> SOPRANO_MAX")
    case False
    then show ?thesis using pre by (simp add: fillMinorChordVector.simps)
  next
    case T1: True
    show ?thesis
    proof (cases "index + 3 \<le> SOPRANO_MAX")
      case F2: False
      have "sorted_wrt (<) (fillMinorChordVector (v @ [index]) (index + 3))"
        using IH(3) [OF T1 refl refl F2 s1 b1] by simp
      then show ?thesis using T1 F2 by (simp add: fillMinorChordVector.simps [of v index] Let_def)
    next
      case T2: True
      show ?thesis
      proof (cases "index + 3 + 4 \<le> SOPRANO_MAX")
        case F3: False
        have "sorted_wrt (<) (fillMinorChordVector (v @ [index, index + 3]) (index + 3 + 4))"
          using IH(2) [OF T1 refl refl T2 refl refl F3 s2 b2] by simp
        then show ?thesis using T1 T2 F3 by (simp add: fillMinorChordVector.simps [of v index] Let_def)
      next
        case T3: True
        have "sorted_wrt (<) (fillMinorChordVector (v @ [index, index + 3, index + 3 + 4]) (index + 3 + 4 + 5))"
          using IH(1) [OF T1 refl refl T2 refl refl T3 s3 b3] by simp
        then show ?thesis using T1 T2 T3 by (simp add: fillMinorChordVector.simps [of v index] Let_def)
      qed
    qed
  qed
qed

lemma fillDimChordVector_ascending:
  "sorted_wrt (<) v \<Longrightarrow> \<forall>x \<in> set v. x < index \<Longrightarrow> sorted_wrt (<) (fillDimChordVector v index)"
proof (induction v index rule: fillDimChordVector.induct)
  case (1 v index)
  note IH = "1.IH" and pre = "1.prems"
  have s1: "sorted_wrt (<) (v @ [index])"
    and s2: "sorted_wrt (<) ((v @ [index]) @ [index + 3])"
    and s3: "sorted_wrt (<) (((v @ [index]) @ [index + 3]) @ [index + 3 + 3])"
    using pre by (auto simp: sorted_wrt_append)
  have b1: "\<forall>x \<in> set (v @ [index]). x < index + 3"
    and b2: "\<forall>x \<in> set ((v @ [index]) @ [index + 3]). x < index + 3 + 3"
    and b3: "\<forall>x \<in> set (((v @ [index]) @ [index + 3]) @ [index + 3 + 3]). x < index + 3 + 3 + 6"
    using pre by fastforce+
  show ?case
  proof (cases "index \<le> SOPRANO_MAX")
    case False
    then show ?thesis using pre by (simp add: fillDimChordVector.simps)
  next
    case T1: True
    show ?thesis
    proof (cases "index + 3 \<le> SOPRANO_MAX")
      case F2: False
      have "sorted_wrt (<) (fillDimChordVector (v @ [index]) (index + 3))"
        using IH(3) [OF T1 refl refl F2 s1 b1] by simp
      then show ?thesis using T1 F2 by (simp add: fillDimChordVector.simps [of v index] Let_def)
    next
      case T2: True
      show ?thesis
      proof (cases "index + 3 + 3 \<le> SOPRANO_MAX")
        case F3: False
        have "sorted_wrt (<) (fillDimChordVector (v @ [index, index + 3]) (index + 3 + 3))"
          using IH(2) [OF T1 refl refl T2 refl refl F3 s2 b2] by simp
        then show ?thesis using T1 T2 F3 by (simp add: fillDimChordVector.simps [of v index] Let_def)
      next
        case T3: True
        have "sorted_wrt (<) (fillDimChordVector (v @ [index, index + 3, index + 3 + 3]) (index + 3 + 3 + 6))"
          using IH(1) [OF T1 refl refl T2 refl refl T3 s3 b3] by simp
        then show ?thesis using T1 T2 T3 by (simp add: fillDimChordVector.simps [of v index] Let_def)
      qed
    qed
  qed
qed


lemma establishNotesInChords_major:
  "establishNotesInChords startNote True =
     (let s = lowestOctave startNote in
      [[], fillMajorChordVector [] s, fillMinorChordVector [] (s + 2),
       fillMinorChordVector [] (s + 4), fillMajorChordVector [] (s + 5),
       fillMajorChordVector [] (s + 7), fillMinorChordVector [] (s + 9),
       fillDimChordVector [] (s + 11), []])"
  by (simp add: establishNotesInChords_def majorChordsLoop.simps Let_def numeral_eq_Suc)

lemma establishNotesInChords_minor:
  "establishNotesInChords startNote False =
     (let s = lowestOctave startNote in
      [[], fillMinorChordVector [] s, fillDimChordVector [] (s + 2),
       fillMajorChordVector [] (s + 3), fillMinorChordVector [] (s + 5),
       fillMajorChordVector [] (s + 7), fillMajorChordVector [] (s + 8),
       fillDimChordVector [] (s + 11), fillMajorChordVector [] (s + 11)])"
  by (simp add: establishNotesInChords_def minorChordsLoop.simps Let_def numeral_eq_Suc)

lemma strictly_ascending_distinct: "sorted_wrt (<) xs \<Longrightarrow> distinct xs" for xs :: "int list"
  using strict_sorted_iff by blast

text \<open>
  Claim C6. In both key modes and for every start note, every entry of the catalog built by
  \<open>establishNotesInChords\<close> is strictly ascending and has no duplicate.
\<close>

theorem catalog_entries_strictly_ascending:
  "list_all (\<lambda>entry. sorted_wrt (<) entry \<and> distinct entry)
     (establishNotesInChords startNote majorKey)"
  by (cases majorKey)
     (simp_all add: establishNotesInChords_major establishNotesInChords_minor Let_def
        strictly_ascending_distinct
        fillMajorChordVector_ascending fillMinorChordVector_ascending
        fillDimChordVector_ascending)

text \<open>
  Claim C4 says that in a minor key the entry of degree 8, the borrowed major VII, is a
  major triad on the pitch at distance 10 from the tonic, the distance that
  \<open>distanceToChord\<close> maps to 8. The loop leaves \<^verbatim>\<open>distance\<close> at 11 after degree 7
  (11, plus 2, minus 2), so for every start note entry 8 is the major triad on the root of
  entry 7, at distance 11, which \<open>distanceToChord\<close> maps to 7. With tonic 0 the entry
  starts at 11 and does not contain the pitch 10.
\<close>

theorem minor_catalog_degree_8_root:
  "establishNotesInChords startNote False ! 8
     = fillMajorChordVector [] (lowestOctave startNote + 11)
   \<and> establishNotesInChords startNote False ! 7
     = fillDimChordVector [] (lowestOctave startNote + 11)
   \<and> establishNotesInChords 0 False ! 8 = [11, 15, 18, 23, 27, 30, 35, 39, 42]
   \<and> distanceToChord False 11 = 7 \<and> distanceToChord False 10 = 8"
proof -
  have "establishNotesInChords 0 False ! 8 = [11, 15, 18, 23, 27, 30, 35, 39, 42]"
    by code_simp
  moreover have "distanceToChord False 11 = 7 \<and> distanceToChord False 10 = 8"
    by code_simp
  ultimately show ?thesis
    by (simp add: establishNotesInChords_minor Let_def)
qed

section \<open>Properties of the chord progression solver\<close>

text \<open>
  Claim C1 says that a chord sequence returned for a valid bass line starts with chord 1
  and that every chord is an allowed successor of the chord before it. After a failed
  recursion the source calls \<^verbatim>\<open>chords.remove(index)\<close>; the chord it has just appended is
  at position \<open>index + 1\<close>, so the chord at \<open>index\<close> is removed in its place. For the
  bass line 0, 4, 7, 0 in a major key the root-position candidate III fails, the initial
  chord I is removed, and the first-inversion candidate I succeeds: the result is
  3, 1, 5, 1. It does not start with 1, and 1 is not an allowed successor of 3.
\<close>

theorem createChordProgression_loses_tonic:
  "validBass True [0, 4, 7, 0]
   \<and> createChordProgression True [0, 4, 7, 0] [] (setUpChordRels True) = Inr (True, [3, 1, 5, 1])
   \<and> at (setUpChordRels True) 3 = Inr [4, 6]"
  by code_simp

lemma vector_remove_length:
  "vector_remove v i = Inr v' \<Longrightarrow> Suc (length v') = length v"
  by (auto simp: vector_remove_def split: if_splits)

lemma failing_progression_keeps_length:
  "\<forall>chords'. createChordProgression_rec majorKey bass chords chordRelations index startingNote
       currentChord = Inr (False, chords') \<longrightarrow> length chords' = length chords"
  "\<forall>chords'. tryChord majorKey bass chords chordRelations index startingNote candidate
       possibleChords = Inr (False, chords') \<longrightarrow> length chords' = length chords"
proof (induction majorKey bass chords chordRelations index startingNote currentChord
        and majorKey bass chords chordRelations index startingNote candidate possibleChords
        rule: createChordProgression_rec_tryChord.induct)
  case (1 majorKey bass chords chordRelations index startingNote currentChord)
  note unfold = createChordProgression_rec.simps [of _ _ chords]
  show ?case
  proof (intro allI impI)
    fix chords'
    assume fail: "createChordProgression_rec majorKey bass chords chordRelations index
                    startingNote currentChord = Inr (False, chords')"
    show "length chords' = length chords"
    proof (cases "index = int (length bass) - 2")
      case True
      with fail show ?thesis by (simp add: unfold split: if_splits)
    next
      case False
      from fail False obtain b where b: "at bass (index + 1) = Inr b"
        by (auto simp: unfold split: sum.splits)
      from fail False b obtain ba where ba: "at chordRelations currentChord = Inr ba"
        by (auto simp: unfold split: sum.splits)
      from fail False b ba obtain y where
        y: "tryChord majorKey bass chords chordRelations index startingNote
              (rootPositionChord majorKey b startingNote) ba = Inr (False, y)"
        by (auto simp: unfold split: sum.splits if_splits)
      from fail False b ba y obtain bc where
        bc: "firstInversionChord majorKey bass index startingNote
               (rootPositionChord majorKey b startingNote) = Inr bc"
        and second: "tryChord majorKey bass y chordRelations index startingNote bc ba
                       = Inr (False, chords')"
        by (auto simp: unfold split: sum.splits)
      have "length y = length chords"
        using "1.IH"(1) [OF False b ba] y by simp
      moreover have "length chords' = length y"
        using "1.IH"(2) [OF False b ba y refl _ bc] second by simp
      ultimately show ?thesis by simp
    qed
  qed
next
  case (2 majorKey bass chords chordRelations index startingNote candidate)
  show ?case by simp
next
  case (3 majorKey bass chords chordRelations index startingNote candidate possibleChord rest)
  show ?case
  proof (intro allI impI)
    fix chords'
    assume fail: "tryChord majorKey bass chords chordRelations index startingNote candidate
                    (possibleChord # rest) = Inr (False, chords')"
    show "length chords' = length chords"
    proof (cases "possibleChord = candidate")
      case False
      with fail "3.IH"(3) show ?thesis by simp
    next
      case True
      from fail True obtain y where
        y: "createChordProgression_rec majorKey bass (chords @ [candidate]) chordRelations
              (index + 1) startingNote candidate = Inr (False, y)"
        by (auto split: sum.splits if_splits)
      from fail True y obtain ba where ba: "vector_remove y index = Inr ba"
        and rest: "tryChord majorKey bass ba chordRelations index startingNote candidate rest
                     = Inr (False, chords')"
        by (auto split: sum.splits)
      have "length y = Suc (length chords)" using "3.IH"(1) [OF True] y by simp
      moreover have "Suc (length ba) = length y" using ba by (rule vector_remove_length)
      moreover have "length chords' = length ba"
        using "3.IH"(2) [OF True y refl _ ba] rest by simp
      ultimately show ?thesis by simp
    qed
  qed
qed

text \<open>
  Claim C8 says that after a failing solve the vectors of the caller hold no partial data.
  For the valid bass line 0, 7, 5, 0 in a major key the progression solver returns false
  and leaves one chord in the vector that was passed in empty.
\<close>

theorem failing_progression_leaves_chord_counterexample:
  "validBass True [0, 7, 5, 0]
   \<and> createChordProgression True [0, 7, 5, 0] [] (setUpChordRels True) = Inr (False, [4])"
  by code_simp

text \<open>
  Claim C8 as amended. The progression solver does not clear what it appended when it
  fails: when it returns false, the vector of chords holds exactly one element more than
  it was passed in with. Nothing is stated about the three voice vectors.
\<close>

theorem failing_progression_leaves_one_more_chord:
  assumes "createChordProgression majorKey bass chords chordRelations = Inr (False, chords')"
  shows "length chords' = length chords + 1"
proof -
  from assms obtain startingNote where
    "createChordProgression_rec majorKey bass (chords @ [1]) chordRelations 0 startingNote 1
       = Inr (False, chords')"
    by (auto simp: createChordProgression_def split: sum.splits)
  then have "length chords' = length (chords @ [1])"
    using failing_progression_keeps_length(1) by blast
  then show ?thesis by simp
qed

theorem failing_progression_leaves_one_more_chord_witness:
  "validBass True [0, 7, 5, 0]
   \<and> createChordProgression True [0, 7, 5, 0] [] (setUpChordRels True) = Inr (False, [4])
   \<and> length [4 :: int] = length ([] :: int list) + 1"
proof -
  have b: "validBass True [0, 7, 5, 0]" by code_simp
  have p: "createChordProgression True [0, 7, 5, 0] [] (setUpChordRels True) = Inr (False, [4])"
    by code_simp
  show ?thesis
    using failing_progression_leaves_one_more_chord [OF p] b p by simp
qed

section \<open>Properties of the voice leading solver\<close>

text \<open>
  Claim C2 says that on success each voice line is as long as the bass line. A step whose
  bass pitch equals the one before takes neither branch of the source and appends nothing.
  For the valid bass line 0, 0, 7, 0 in a major key, with the chords 1, 1, 5, 1 that the
  progression solver returns for it, the voice leading solver succeeds with three voice
  lines of three pitches for a bass line of four.
\<close>

theorem canCreateChorale_short_voice_lines:
  "validBass True [0, 0, 7, 0]
   \<and> createChordProgression True [0, 0, 7, 0] [] (setUpChordRels True) = Inr (True, [1, 1, 5, 1])
   \<and> canCreateChorale True [1, 1, 5, 1] (establishNotesInChords 0 True) cleared [0, 0, 7, 0]
       = Inr (True, \<lparr>soprano = [36, 35, 36], alto = [31, 31, 31], tenor = [28, 26, 28]\<rparr>)"
  by code_simp

text \<open>
  Claim C3 says that on success every pitch lies in the range of its voice, the pitches of
  the final chord included. The range test of the source looks at the last pitch of each
  voice at the start of a step, so the pitches appended by the final step are never
  tested, and a closest-downward step has no test of its own. For the valid bass line
  5, 7, 16, 17 in a major key, with the chords 1, 2, 5, 1 that the progression solver
  returns for it, the solver succeeds with the final alto pitch 17, below \<open>ALTO_MIN\<close>.
\<close>

theorem canCreateChorale_final_alto_below_range:
  "validBass True [5, 7, 16, 17]
   \<and> createChordProgression True [5, 7, 16, 17] [] (setUpChordRels True) = Inr (True, [1, 2, 5, 1])
   \<and> canCreateChorale True [1, 2, 5, 1] (establishNotesInChords 5 True) cleared [5, 7, 16, 17]
       = Inr (True, \<lparr>soprano = [29, 26, 24, 24], alto = [24, 22, 19, 17],
                     tenor = [21, 19, 19, 17]\<rparr>)
   \<and> (17 :: int) < ALTO_MIN"
  by code_simp

text \<open>
  Claim C7 says that whenever the previous chord is V, the bass rises and the soprano holds
  the leading tone, the soprano moves up by one and the flag is set. In the source a rise
  of exactly 5 is handled by the first branch, where all voices move to the closest pitch
  above and the flag is left as it is. At step 2 of the bass line 0, 7, 12, 7, 0 with the
  chords 1, 5, 1, 5, 1 the previous chord is 5, the bass rises from 7 to 12 and the soprano
  holds 35, the leading tone; the flag passed on is false.
\<close>

theorem leading_tone_rise_by_fourth_counterexample:
  "vector_get [1, 5, 1, 5, 1] (2 - 1) = Inr (5 :: int)
   \<and> at [0, 7, 12, 7, 0] (2 - 1) = Inr (7 :: int) \<and> at [0, 7, 12, 7, 0] 2 = Inr (12 :: int)
   \<and> distanceToChord True (35 - 0) = 7
   \<and> moveVoices True [1, 5, 1, 5, 1] (establishNotesInChords 0 True)
        \<lparr>soprano = [36, 35], alto = [31, 31], tenor = [28, 26]\<rparr> [0, 7, 12, 7, 0] 2 False
      = Inr (True, \<lparr>soprano = [36, 35, 36], alto = [31, 31, 31], tenor = [28, 26, 28]\<rparr>, False)"
  by code_simp

text \<open>
  Claim C7 as amended. At a step \<open>index > 0\<close> where the chord at \<open>index - 1\<close> is 5, the
  bass rises from \<open>index - 1\<close> to \<open>index\<close> by an interval other than 5, and the last
  soprano pitch is the leading tone, the soprano is given that pitch plus one and the flag
  passed to the following step is set.
\<close>

theorem leading_tone_resolution:
  assumes "at bass index = Inr bi" and "at bass (index - 1) = Inr bp"
    and "bp < bi" and "bi - bp \<noteq> 5"
    and "vector_get chords (index - 1) = Inr 5"
    and "vec_back (soprano v) = Inr sb" and "at bass 0 = Inr b0"
    and "distanceToChord majorKey (sb - b0) = 7"
    and "moveVoices majorKey chords notesInChords v bass index LTCorrected
           = Inr (ok, v1, LTCorrected1)"
  shows "soprano v1 = soprano v @ [sb + 1] \<and> LTCorrected1"
  using assms
  by (auto simp: moveVoices_def bindE_def Let_def split: sum.splits if_splits prod.splits)

theorem leading_tone_resolution_witness:
  "moveVoices True [1, 5, 1] (establishNotesInChords 0 True)
       \<lparr>soprano = [36, 35], alto = [31, 31], tenor = [28, 26]\<rparr> [0, 11, 12] 2 False
     = Inr (True, \<lparr>soprano = [36, 35, 36], alto = [31, 31, 31], tenor = [28, 26, 24]\<rparr>, True)
   \<and> soprano \<lparr>soprano = [36, 35, 36], alto = [31, 31, 31], tenor = [28, 26, 24]\<rparr>
       = soprano \<lparr>soprano = [36, 35], alto = [31, 31], tenor = [28, 26]\<rparr> @ [35 + 1]"
proof -
  have h1: "at [0, 11, 12] 2 = Inr (12 :: int)" by code_simp
  have h2: "at [0, 11, 12] (2 - 1) = Inr (11 :: int)" by code_simp
  have h3: "(11 :: int) < 12" by simp
  have h4: "(12 :: int) - 11 \<noteq> 5" by simp
  have h5: "vector_get [1, 5, 1] (2 - 1) = Inr (5 :: int)" by code_simp
  have h6: "vec_back (soprano \<lparr>soprano = [36, 35], alto = [31, 31], tenor = [28, 26]\<rparr>) = Inr 35"
    by code_simp
  have h7: "at [0, 11, 12] 0 = Inr (0 :: int)" by code_simp
  have h8: "distanceToChord True (35 - 0) = 7" by code_simp
  have h9: "moveVoices True [1, 5, 1] (establishNotesInChords 0 True)
       \<lparr>soprano = [36, 35], alto = [31, 31], tenor = [28, 26]\<rparr> [0, 11, 12] 2 False
     = Inr (True, \<lparr>soprano = [36, 35, 36], alto = [31, 31, 31], tenor = [28, 26, 24]\<rparr>, True)"
    by code_simp
  show ?thesis
    using leading_tone_resolution [OF h1 h2 h3 h4 h5 h6 h7 h8 h9] h9 by simp
qed



end
